theory Spec2Isabelle
  imports Main
begin

section \<open>Data model of configuration.go\<close>

text \<open>
  \<^verbatim>\<open>ClientConfiguration\<close> is the Go struct of the same name. Its \<^verbatim>\<open>Authentication\<close>
  field is an interface value whose type is declared outside the verified file: the
  type of the values it can hold is the parameter \<open>'auth\<close>, and \<open>None\<close> is the nil
  interface. Go strings are byte sequences, as \<open>string\<close> is here.
\<close>

record 'auth ClientConfiguration =
  Host :: string
  Authentication :: "'auth option"
  Token :: string
  Timeout :: string
  Debug :: bool

text \<open>
  The values of the \<^verbatim>\<open>Contexts\<close> map are pointers. A pointer is \<open>None\<close> (nil) or the
  address of a struct in memory. The map itself may be nil (\<open>None\<close>) as well.
\<close>

type_synonym addr = nat
type_synonym ptr = "addr option"

record Configuration =
  CurrentContext :: string
  Contexts :: "(string \<rightharpoonup> ptr) option"

text \<open>
  The memory holding the \<^verbatim>\<open>ClientConfiguration\<close> structs: every address below \<open>brk\<close>
  has been allocated, \<open>new\<close> takes the next one.
\<close>

record 'auth memory =
  cells :: "addr \<Rightarrow> 'auth ClientConfiguration"
  brk :: addr

datatype panic = NilDereference | NilMapAssignment

definition zero :: "'auth ClientConfiguration" where
  "zero = \<lparr>Host = [], Authentication = None, Token = [], Timeout = [], Debug = False\<rparr>"

definition new :: "'auth memory \<Rightarrow> 'auth ClientConfiguration \<Rightarrow> 'auth memory \<times> addr" where
  "new mem v = (mem\<lparr>cells := (cells mem)(brk mem := v), brk := Suc (brk mem)\<rparr>, brk mem)"

definition DefaultContextKey :: string where
  "DefaultContextKey = ''master''"

section \<open>The functions of Go's strings package that FormatHost calls\<close>

text \<open>
  \<^verbatim>\<open>strings.LastIndexByte(s, c)\<close> is the index of the last instance of \<open>c\<close> in \<open>s\<close>, or
  \<open>-1\<close>; \<^verbatim>\<open>strings.Index(s, substr)\<close> is the index of the first instance of \<open>substr\<close>
  in \<open>s\<close>, or \<open>-1\<close>; \<^verbatim>\<open>strings.HasPrefix(s, prefix)\<close> tests whether \<open>s\<close> begins with
  \<open>prefix\<close>.
\<close>

definition HasPrefix :: "string \<Rightarrow> string \<Rightarrow> bool" where
  "HasPrefix s pre = (length pre \<le> length s \<and> take (length pre) s = pre)"

fun LastIndexByte :: "string \<Rightarrow> char \<Rightarrow> int" where
  "LastIndexByte [] c = - 1"
| "LastIndexByte (x # xs) c =
     (let i = LastIndexByte xs c
      in if 0 \<le> i then i + 1 else if x = c then 0 else - 1)"

fun Index :: "string \<Rightarrow> string \<Rightarrow> int" where
  "Index [] substr = (if substr = [] then 0 else - 1)"
| "Index (x # xs) substr =
     (if HasPrefix (x # xs) substr then 0
      else (let i = Index xs substr in if i < 0 then - 1 else i + 1))"

section \<open>ClientConfiguration: FormatHost, IsValid, Fill\<close>

text \<open>
  \<open>FormatHost_Host\<close> is the body of \<^verbatim>\<open>FormatHost\<close> as a function of the \<^verbatim>\<open>Host\<close> field,
  the only field the method reads or writes: \<open>host1\<close> is the field after the trailing
  slash is removed, \<open>host2\<close> after the schema is prepended.
\<close>

definition FormatHost_Host :: "string \<Rightarrow> string" where
  "FormatHost_Host host0 =
     (if length host0 = 0 then host0
      else
        let host1 = (if host0 ! (length host0 - 1) = CHR ''/''
                     then take (length host0 - 1) host0 else host0);
            portIdx = LastIndexByte host1 (CHR '':'');
            schemaIdx = Index host1 ''://'';
            hasSchema = (0 \<le> schemaIdx);
            hasPort = (schemaIdx + 1 < portIdx);
            port = (if hasPort then drop (nat (portIdx + 1)) host1 else ''80'');
            host2 = (if \<not> hasSchema
                     then (if port = ''443'' then ''https://'' @ host1 else ''http://'' @ host1)
                     else host1);
            port' = (if hasSchema \<and> \<not> hasPort \<and> HasPrefix host1 ''https://''
                     then ''443'' else port)
        in if \<not> hasPort then host2 @ '':'' @ port' else host2)"

definition FormatHost :: "'auth ClientConfiguration \<Rightarrow> 'auth ClientConfiguration" where
  "FormatHost c = c\<lparr>Host := FormatHost_Host (Host c)\<rparr>"

text \<open>
  \<^verbatim>\<open>IsValid\<close> has a pointer receiver and calls \<^verbatim>\<open>FormatHost\<close> on it: the model returns
  the struct as the call leaves it, and the boolean.
\<close>

definition ClientConfiguration_IsValid ::
  "'auth ClientConfiguration \<Rightarrow> 'auth ClientConfiguration \<times> bool" where
  "ClientConfiguration_IsValid c =
     (if length (Host c) = 0 then (c, False)
      else
        let c' = FormatHost c
        in (c', Host c' \<noteq> [] \<and> (Token c' \<noteq> [] \<or> Authentication c' \<noteq> None)))"

definition Fill ::
  "'auth ClientConfiguration \<Rightarrow> 'auth ClientConfiguration \<Rightarrow> 'auth ClientConfiguration \<times> bool" where
  "Fill c other =
     (let c1 = (if Host other \<noteq> [] \<and> Host other \<noteq> Host c then c\<lparr>Host := Host other\<rparr> else c);
          c2 = (if Authentication other \<noteq> None
                then c1\<lparr>Authentication := Authentication other\<rparr> else c1);
          c3 = (if Token other \<noteq> [] \<and> Token other \<noteq> Token c2
                then c2\<lparr>Token := Token other\<rparr> else c2);
          c4 = (if Timeout other \<noteq> [] \<and> Timeout other \<noteq> Timeout c3
                then c3\<lparr>Timeout := Timeout other\<rparr> else c3);
          c5 = (if Debug c4 \<noteq> Debug other then c4\<lparr>Debug := Debug other\<rparr> else c4)
      in ClientConfiguration_IsValid c5)"

section \<open>Map indexing, assignment and deletion\<close>

text \<open>
  Reading a nil map finds nothing, deleting from it does nothing, assigning into it
  panics.
\<close>

definition map_index :: "(string \<rightharpoonup> ptr) option \<Rightarrow> string \<Rightarrow> ptr option" where
  "map_index cm k = (case cm of None \<Rightarrow> None | Some m \<Rightarrow> m k)"

definition map_assign ::
  "(string \<rightharpoonup> ptr) option \<Rightarrow> string \<Rightarrow> ptr \<Rightarrow> panic + (string \<rightharpoonup> ptr) option" where
  "map_assign cm k v =
     (case cm of None \<Rightarrow> Inl NilMapAssignment | Some m \<Rightarrow> Inr (Some (m(k \<mapsto> v))))"

definition map_delete :: "(string \<rightharpoonup> ptr) option \<Rightarrow> string \<Rightarrow> (string \<rightharpoonup> ptr) option" where
  "map_delete cm k = (case cm of None \<Rightarrow> None | Some m \<Rightarrow> Some (m(k := None)))"


text \<open>
  A \<^verbatim>\<open>range\<close> over a map visits every entry once, in an order the runtime chooses: an
  iteration is any list \<open>es\<close> of the entries with \<open>ranges cm es\<close>. A nil map has none.
\<close>

definition ranges :: "(string \<rightharpoonup> ptr) option \<Rightarrow> (string \<times> ptr) list \<Rightarrow> bool" where
  "ranges cm es =
     (distinct (map fst es) \<and> map_of es = (case cm of None \<Rightarrow> Map.empty | Some m \<Rightarrow> m))"

section \<open>Method calls through a pointer\<close>

text \<open>
  A method with a pointer receiver reads a field of the receiver before anything else
  (\<^verbatim>\<open>IsValid\<close>), or at the latest at \<^verbatim>\<open>c.Debug\<close> with nothing written before
  (\<^verbatim>\<open>Fill\<close>): on a nil receiver it panics.
\<close>

definition IsValid_at :: "'auth memory \<Rightarrow> ptr \<Rightarrow> panic + ('auth memory \<times> bool)" where
  "IsValid_at mem p =
     (case p of
        None \<Rightarrow> Inl NilDereference
      | Some a \<Rightarrow>
          (let (c', ok) = ClientConfiguration_IsValid (cells mem a)
           in Inr (mem\<lparr>cells := (cells mem)(a := c')\<rparr>, ok)))"

definition Fill_at ::
  "'auth memory \<Rightarrow> ptr \<Rightarrow> 'auth ClientConfiguration \<Rightarrow> panic + ('auth memory \<times> bool)" where
  "Fill_at mem p other =
     (case p of
        None \<Rightarrow> Inl NilDereference
      | Some a \<Rightarrow>
          (let (c', ok) = Fill (cells mem a) other
           in Inr (mem\<lparr>cells := (cells mem)(a := c')\<rparr>, ok)))"

section \<open>Configuration: IsValid, GetCurrent, SetCurrent, RemoveContext, Clone, FillCurrent\<close>



definition GetCurrent ::
  "'auth memory \<Rightarrow> Configuration \<Rightarrow> panic + ('auth memory \<times> Configuration \<times> ptr)" where
  "GetCurrent mem c =
     (let c1 = (if Contexts c = None then c\<lparr>Contexts := Some Map.empty\<rparr> else c)
      in case map_index (Contexts c1) (CurrentContext c1) of
           Some cfg \<Rightarrow> Inr (mem, c1, cfg)
         | None \<Rightarrow>
             (let (mem', a) = new mem zero;
                  c2 = (if CurrentContext c1 = []
                        then c1\<lparr>CurrentContext := DefaultContextKey\<rparr> else c1)
              in case map_assign (Contexts c2) (CurrentContext c2) (Some a) of
                   Inl e \<Rightarrow> Inl e
                 | Inr cm \<Rightarrow> Inr (mem', c2\<lparr>Contexts := cm\<rparr>, Some a)))"

definition SetCurrent :: "Configuration \<Rightarrow> string \<Rightarrow> Configuration" where
  "SetCurrent c currentContextName = c\<lparr>CurrentContext := currentContextName\<rparr>"

text \<open>
  The loop of \<^verbatim>\<open>RemoveContext\<close> over the entries still to visit; the boolean of the
  result is \<^verbatim>\<open>canBeRemoved\<close>.
\<close>

fun RemoveContext_range ::
  "(string \<times> ptr) list \<Rightarrow> string \<Rightarrow> 'auth memory \<Rightarrow> Configuration \<Rightarrow>
   panic + ('auth memory \<times> Configuration \<times> bool)" where
  "RemoveContext_range [] contextName mem c = Inr (mem, c, False)"
| "RemoveContext_range ((name, cfg) # rest) contextName mem c =
     (if name = contextName then RemoveContext_range rest contextName mem c
      else
        case IsValid_at mem cfg of
          Inl e \<Rightarrow> Inl e
        | Inr (mem', ok) \<Rightarrow>
            if ok then Inr (mem', SetCurrent c name, True)
            else RemoveContext_range rest contextName mem' c)"

text \<open>\<open>es\<close> is the order in which the \<^verbatim>\<open>range\<close> visits \<^verbatim>\<open>c.Contexts\<close>.\<close>

definition RemoveContext ::
  "(string \<times> ptr) list \<Rightarrow> 'auth memory \<Rightarrow> Configuration \<Rightarrow> string \<Rightarrow>
   panic + ('auth memory \<times> Configuration \<times> bool)" where
  "RemoveContext es mem c contextName =
     (case map_index (Contexts c) contextName of
        Some _ \<Rightarrow>
          (case (if CurrentContext c = contextName
                 then RemoveContext_range es contextName mem c
                 else Inr (mem, c, True)) of
             Inl e \<Rightarrow> Inl e
           | Inr (mem', c', canBeRemoved) \<Rightarrow>
               Inr (mem',
                    (if canBeRemoved
                     then c'\<lparr>Contexts := map_delete (Contexts c') contextName\<rparr> else c'),
                    canBeRemoved))
      | None \<Rightarrow> Inr (mem, c, False))"

text \<open>
  The loop of \<^verbatim>\<open>Clone\<close>: \<^verbatim>\<open>vCopy := *v\<close> reads through the entry's pointer and is a
  new variable in every iteration, whose address goes into the clone's map \<open>cm\<close>.
\<close>

fun Clone_range ::
  "(string \<times> ptr) list \<Rightarrow> 'auth memory \<Rightarrow> (string \<rightharpoonup> ptr) \<Rightarrow>
   panic + ('auth memory \<times> (string \<rightharpoonup> ptr))" where
  "Clone_range [] mem cm = Inr (mem, cm)"
| "Clone_range ((k, v) # rest) mem cm =
     (case v of
        None \<Rightarrow> Inl NilDereference
      | Some a \<Rightarrow>
          (let (mem', vCopy) = new mem (cells mem a)
           in Clone_range rest mem' (cm(k \<mapsto> Some vCopy))))"

definition Clone ::
  "(string \<times> ptr) list \<Rightarrow> 'auth memory \<Rightarrow> Configuration \<Rightarrow>
   panic + ('auth memory \<times> Configuration)" where
  "Clone es mem c =
     (case Clone_range es mem Map.empty of
        Inl e \<Rightarrow> Inl e
      | Inr (mem', cm) \<Rightarrow>
          Inr (mem', \<lparr>CurrentContext = CurrentContext c, Contexts = Some cm\<rparr>))"

text \<open>
  \<^verbatim>\<open>FillCurrent\<close> takes \<^verbatim>\<open>cfg\<close> by value; \<^verbatim>\<open>cfg.IsValid()\<close> works on that copy, and
  \<^verbatim>\<open>&cfg\<close> is the address of the copy, a struct no other pointer reaches.
\<close>

definition FillCurrent ::
  "'auth memory \<Rightarrow> Configuration \<Rightarrow> 'auth ClientConfiguration \<Rightarrow>
   panic + ('auth memory \<times> Configuration)" where
  "FillCurrent mem c cfg =
     (let context = CurrentContext c
      in case map_index (Contexts c) context of
           None \<Rightarrow>
             (let (cfg', ok) = ClientConfiguration_IsValid cfg
              in if ok
                 then (let (mem', a) = new mem cfg'
                       in case map_assign (Contexts c) context (Some a) of
                            Inl e \<Rightarrow> Inl e
                          | Inr cm \<Rightarrow> Inr (mem', c\<lparr>Contexts := cm\<rparr>))
                 else Inr (mem, c))
         | Some p \<Rightarrow>
             (case Fill_at mem p cfg of
                Inl e \<Rightarrow> Inl e
              | Inr (mem', _) \<Rightarrow> Inr (mem', c)))"

section \<open>Predicates used to state the properties\<close>

text \<open>
  \<^verbatim>\<open>strings.HasSuffix(s, suffix)\<close> tests whether \<open>s\<close> ends with \<open>suffix\<close>.
\<close>

definition HasSuffix :: "string \<Rightarrow> string \<Rightarrow> bool" where
  "HasSuffix s suf = (length suf \<le> length s \<and> drop (length s - length suf) s = suf)"


text \<open>
  A host is normalised when \<^verbatim>\<open>FormatHost\<close> finds both a schema and a port in it: the
  last colon stands after the schema separator.
\<close>

definition normalized :: "string \<Rightarrow> bool" where
  "normalized s = (0 \<le> Index s ''://'' \<and> Index s ''://'' + 1 < LastIndexByte s (CHR '':''))"

section \<open>Facts about the string functions\<close>

lemma LastIndexByte_lower: "- 1 \<le> LastIndexByte s c"
  by (induction s) (auto simp: Let_def)

lemma LastIndexByte_append:
  "LastIndexByte (p @ s) c =
     (if 0 \<le> LastIndexByte s c then int (length p) + LastIndexByte s c else LastIndexByte p c)"
proof (induction p)
  case Nil
  show ?case using LastIndexByte_lower [of s c] by simp
next
  case (Cons x p)
  then show ?case by (simp add: Let_def)
qed

lemma LastIndexByte_upper: "LastIndexByte s c < int (length s)"
  by (induction s) (auto simp: Let_def)

lemma LastIndexByte_nth: "0 \<le> LastIndexByte s c \<Longrightarrow> s ! nat (LastIndexByte s c) = c"
proof (induction s)
  case Nil
  then show ?case by simp
next
  case (Cons x xs)
  show ?case
  proof (cases "0 \<le> LastIndexByte xs c")
    case True
    then have "nat (LastIndexByte xs c + 1) = Suc (nat (LastIndexByte xs c))" by simp
    with True Cons.IH show ?thesis by (simp add: Let_def)
  next
    case False
    with Cons.prems show ?thesis by (simp add: Let_def split: if_splits)
  qed
qed

lemma Index_lower: "- 1 \<le> Index s sub"
  by (induction s) (auto simp: Let_def)

lemma Index_bound: "0 \<le> Index s sub \<Longrightarrow> Index s sub + int (length sub) \<le> int (length s)"
  by (induction s) (auto simp: Let_def HasPrefix_def split: if_splits)

lemma HasPrefix_append: "length sub \<le> length s \<Longrightarrow> HasPrefix (s @ t) sub = HasPrefix s sub"
  by (auto simp: HasPrefix_def)

lemma HasPrefix_take: "length sub \<le> n \<Longrightarrow> HasPrefix (take n s) sub = HasPrefix s sub"
  by (auto simp: HasPrefix_def min_def)

lemma Index_append: "0 \<le> Index s sub \<Longrightarrow> Index (s @ t) sub = Index s sub"
proof (induction s)
  case Nil
  then show ?case by (cases t) (auto simp: HasPrefix_def split: if_splits)
next
  case (Cons x xs)
  from Cons.prems have "Index (x # xs) sub + int (length sub) \<le> int (length (x # xs))"
    by (rule Index_bound)
  with Index_lower [of "x # xs" sub] Cons.prems have "length sub \<le> length (x # xs)" by linarith
  then have hp: "HasPrefix ((x # xs) @ t) sub = HasPrefix (x # xs) sub"
    by (rule HasPrefix_append)
  show ?case
  proof (cases "HasPrefix (x # xs) sub")
    case True
    with hp show ?thesis by simp
  next
    case False
    with Cons.prems have ge: "0 \<le> Index xs sub" by (simp add: Let_def split: if_splits)
    with False hp Cons.IH show ?thesis by (simp add: Let_def)
  qed
qed

lemma Index_take:
  "0 \<le> Index s sub \<Longrightarrow> Index s sub + int (length sub) \<le> int n \<Longrightarrow>
   Index (take n s) sub = Index s sub"
proof (induction s arbitrary: n)
  case Nil
  then show ?case by simp
next
  case (Cons x xs)
  from Cons.prems have len: "length sub \<le> n" by linarith
  show ?case
  proof (cases n)
    case 0
    with len have "sub = []" by simp
    with 0 show ?thesis by (simp add: HasPrefix_def)
  next
    case (Suc m)
    from len have hp: "HasPrefix (take n (x # xs)) sub = HasPrefix (x # xs) sub"
      by (rule HasPrefix_take)
    show ?thesis
    proof (cases "HasPrefix (x # xs) sub")
      case True
      with hp Suc show ?thesis by simp
    next
      case False
      with Cons.prems have ge: "0 \<le> Index xs sub" by (simp add: Let_def split: if_splits)
      from False ge Cons.prems Suc have b: "Index xs sub + int (length sub) \<le> int m"
        by (simp add: Let_def)
      from False hp Suc ge Cons.IH [OF ge b] show ?thesis by (simp add: Let_def)
    qed
  qed
qed

lemma Index_http: "Index (''http://'' @ s) ''://'' = 4"
  by (simp add: HasPrefix_def)

lemma Index_https: "Index (''https://'' @ s) ''://'' = 5"
  by (simp add: HasPrefix_def)

lemma LastIndexByte_butlast:
  "s \<noteq> [] \<Longrightarrow> last s \<noteq> c \<Longrightarrow> LastIndexByte (butlast s) c = LastIndexByte s c"
proof -
  assume a: "s \<noteq> []" "last s \<noteq> c"
  then have "LastIndexByte (butlast s @ [last s]) c = LastIndexByte (butlast s) c"
    unfolding LastIndexByte_append by simp
  with a show ?thesis by simp
qed

subsection \<open>Normalised hosts and FormatHost\<close>

lemma normalized_not_Nil: "normalized s \<Longrightarrow> s \<noteq> []"
  by (auto simp: normalized_def)

lemma FormatHost_Host_normalized:
  assumes "normalized s" and "last s \<noteq> CHR ''/''"
  shows "FormatHost_Host s = s"
proof -
  from assms(1) have ne: "s \<noteq> []" by (rule normalized_not_Nil)
  with assms(2) have "s ! (length s - 1) \<noteq> CHR ''/''" by (simp add: last_conv_nth)
  with assms(1) ne show ?thesis by (simp add: FormatHost_Host_def normalized_def Let_def)
qed

lemma normalized_butlast:
  assumes "normalized s" and "last s = CHR ''/''"
  shows "normalized (butlast s)"
proof -
  let ?p = "LastIndexByte s (CHR '':'')" and ?i = "Index s ''://''"
  from assms(1) have ne: "s \<noteq> []" by (rule normalized_not_Nil)
  from assms(1) have i: "0 \<le> ?i" and ip: "?i + 1 < ?p" by (simp_all add: normalized_def)
  from ip i have "s ! nat ?p = CHR '':''" by (intro LastIndexByte_nth) simp
  moreover from ne assms(2) have "s ! (length s - 1) = CHR ''/''" by (simp add: last_conv_nth)
  ultimately have "nat ?p \<noteq> length s - 1" by auto
  with LastIndexByte_upper [of s "CHR '':''"] i ip have "?p + 1 < int (length s)" by linarith
  with ip have "?i + int (length ''://'') \<le> int (length s - 1)" by simp
  with i have "Index (take (length s - 1) s) ''://'' = ?i" by (rule Index_take)
  moreover from ne assms(2) have "LastIndexByte (butlast s) (CHR '':'') = ?p"
    by (intro LastIndexByte_butlast) simp_all
  ultimately show ?thesis using i ip by (simp add: normalized_def butlast_conv_take)
qed

lemma FormatHost_Host_slash:
  assumes "normalized s" and "last s = CHR ''/''"
  shows "FormatHost_Host s = butlast s"
proof -
  from assms(1) have ne: "s \<noteq> []" by (rule normalized_not_Nil)
  with assms(2) have "s ! (length s - 1) = CHR ''/''" by (simp add: last_conv_nth)
  moreover from assms have "normalized (take (length s - 1) s)"
    using normalized_butlast by (simp add: butlast_conv_take)
  ultimately show ?thesis using ne
    by (simp add: FormatHost_Host_def normalized_def Let_def butlast_conv_take)
qed

lemma HasSuffix_slash: "HasSuffix s ''/'' = (s \<noteq> [] \<and> last s = CHR ''/'')"
proof (cases s rule: rev_cases)
  case Nil
  then show ?thesis by (simp add: HasSuffix_def)
next
  case (snoc ys y)
  then show ?thesis by (simp add: HasSuffix_def)
qed

lemma HasSuffix_slash2:
  "HasSuffix s ''//'' =
     (s \<noteq> [] \<and> last s = CHR ''/'' \<and> butlast s \<noteq> [] \<and> last (butlast s) = CHR ''/'')"
proof (cases s rule: rev_cases)
  case Nil
  then show ?thesis by (simp add: HasSuffix_def)
next
  case s: (snoc ys y)
  show ?thesis
  proof (cases ys rule: rev_cases)
    case Nil
    with s show ?thesis by (simp add: HasSuffix_def)
  next
    case (snoc zs z)
    with s have eq: "s = (zs @ [z]) @ [y]" by simp
    have "butlast s = zs @ [z]" unfolding eq by (rule butlast_snoc)
    moreover have "last s = y" unfolding eq by (rule last_snoc)
    moreover have "drop (length s - 2) s = [z, y]" unfolding eq by simp
    ultimately show ?thesis using eq by (auto simp: HasSuffix_def)
  qed
qed

text \<open>The shapes of a result of \<^verbatim>\<open>FormatHost\<close>, by its two tests \<^verbatim>\<open>hasSchema\<close> and \<^verbatim>\<open>hasPort\<close>.\<close>

lemma FormatHost_Host_shape:
  assumes "h \<noteq> []"
  defines "s \<equiv> (if last h = CHR ''/'' then butlast h else h)"
  shows "(normalized s \<and> FormatHost_Host h = s) \<or>
         (Index s ''://'' = - 1 \<and> 0 < LastIndexByte s (CHR '':'') \<and>
            (FormatHost_Host h = ''http://'' @ s \<or> FormatHost_Host h = ''https://'' @ s)) \<or>
         (0 \<le> Index s ''://'' \<and>
            (FormatHost_Host h = s @ '':80'' \<or> FormatHost_Host h = s @ '':443'')) \<or>
         (Index s ''://'' = - 1 \<and> FormatHost_Host h = ''http://'' @ s @ '':80'')"
proof -
  from assms(1) have nth: "h ! (length h - 1) = last h" by (simp add: last_conv_nth)
  have s: "(if h ! (length h - 1) = CHR ''/'' then take (length h - 1) h else h) = s"
    unfolding s_def nth by (simp add: butlast_conv_take)
  have F: "FormatHost_Host h =
     (let portIdx = LastIndexByte s (CHR '':'');
          schemaIdx = Index s ''://'';
          hasSchema = (0 \<le> schemaIdx);
          hasPort = (schemaIdx + 1 < portIdx);
          port = (if hasPort then drop (nat (portIdx + 1)) s else ''80'');
          host2 = (if \<not> hasSchema
                   then (if port = ''443'' then ''https://'' @ s else ''http://'' @ s)
                   else s);
          port' = (if hasSchema \<and> \<not> hasPort \<and> HasPrefix s ''https://''
                   then ''443'' else port)
      in if \<not> hasPort then host2 @ '':'' @ port' else host2)"
    using assms(1) unfolding FormatHost_Host_def s by (simp add: Let_def)
  have neg: "Index s ''://'' = - 1" if "\<not> 0 \<le> Index s ''://''"
    using that Index_lower [of s "''://''"] by linarith
  show ?thesis
  proof (cases "0 \<le> Index s ''://''")
    case schema: True
    show ?thesis
    proof (cases "Index s ''://'' + 1 < LastIndexByte s (CHR '':'')")
      case True
      with schema F show ?thesis by (simp add: normalized_def Let_def)
    next
      case False
      with schema F show ?thesis by (simp add: Let_def)
    qed
  next
    case noschema: False
    show ?thesis
    proof (cases "Index s ''://'' + 1 < LastIndexByte s (CHR '':'')")
      case True
      with noschema neg F show ?thesis by (simp add: Let_def)
    next
      case False
      with noschema neg F show ?thesis by (simp add: Let_def)
    qed
  qed
qed

lemma LastIndexByte_port80: "LastIndexByte (s @ '':80'') (CHR '':'') = int (length s)"
  by (simp add: LastIndexByte_append)

lemma LastIndexByte_port443: "LastIndexByte (s @ '':443'') (CHR '':'') = int (length s)"
  by (simp add: LastIndexByte_append)

lemma normalized_FormatHost_Host:
  assumes "h \<noteq> []"
  shows "normalized (FormatHost_Host h)"
proof -
  define s where "s = (if last h = CHR ''/'' then butlast h else h)"
  note shape = FormatHost_Host_shape [OF assms, folded s_def]
  have app: "normalized (s @ t)"
    if "0 \<le> Index s ''://''" "LastIndexByte (s @ t) (CHR '':'') = int (length s)" for t
  proof -
    from that(1) have "Index s ''://'' + int (length ''://'') \<le> int (length s)"
      by (rule Index_bound)
    with that show ?thesis by (simp add: normalized_def Index_append)
  qed
  from shape show ?thesis
  proof (elim disjE conjE)
    assume "normalized s" "FormatHost_Host h = s"
    then show ?thesis by simp
  next
    assume p: "0 < LastIndexByte s (CHR '':'')" and F: "FormatHost_Host h = ''http://'' @ s"
    from p have "normalized (''http://'' @ s)"
      unfolding normalized_def Index_http LastIndexByte_append [of "''http://''"] by simp
    with F show ?thesis by simp
  next
    assume p: "0 < LastIndexByte s (CHR '':'')" and F: "FormatHost_Host h = ''https://'' @ s"
    from p have "normalized (''https://'' @ s)"
      unfolding normalized_def Index_https LastIndexByte_append [of "''https://''"] by simp
    with F show ?thesis by simp
  next
    assume "0 \<le> Index s ''://''" "FormatHost_Host h = s @ '':80''"
    then show ?thesis using app [OF _ LastIndexByte_port80] by simp
  next
    assume "0 \<le> Index s ''://''" "FormatHost_Host h = s @ '':443''"
    then show ?thesis using app [OF _ LastIndexByte_port443] by simp
  next
    assume F: "FormatHost_Host h = ''http://'' @ s @ '':80''"
    have "LastIndexByte (''http://'' @ s @ '':80'') (CHR '':'') = 7 + int (length s)"
      unfolding LastIndexByte_append [of "''http://''"] LastIndexByte_port80 by simp
    then have "normalized (''http://'' @ s @ '':80'')" unfolding normalized_def Index_http by simp
    with F show ?thesis by simp
  qed
qed

lemma last_FormatHost_Host:
  assumes "h \<noteq> []" and "\<not> HasSuffix h ''//''"
  shows "last (FormatHost_Host h) \<noteq> CHR ''/''"
proof -
  define s where "s = (if last h = CHR ''/'' then butlast h else h)"
  note shape = FormatHost_Host_shape [OF assms(1), folded s_def]
  from assms have s: "s \<noteq> [] \<Longrightarrow> last s \<noteq> CHR ''/''"
    by (auto simp: s_def HasSuffix_slash2)
  from shape show ?thesis
  proof (elim disjE conjE)
    assume "normalized s" "FormatHost_Host h = s"
    with s normalized_not_Nil show ?thesis by auto
  next
    assume "0 < LastIndexByte s (CHR '':'')" "FormatHost_Host h = ''http://'' @ s"
    with s show ?thesis by (cases "s = []") auto
  next
    assume "0 < LastIndexByte s (CHR '':'')" "FormatHost_Host h = ''https://'' @ s"
    with s show ?thesis by (cases "s = []") auto
  qed simp_all
qed

lemma FormatHost_Host_twice:
  "FormatHost_Host (FormatHost_Host h) = FormatHost_Host h \<longleftrightarrow>
     \<not> HasSuffix (FormatHost_Host h) ''/''"
proof (cases "h = []")
  case True
  then show ?thesis by (simp add: FormatHost_Host_def HasSuffix_def)
next
  case False
  then have n: "normalized (FormatHost_Host h)" by (rule normalized_FormatHost_Host)
  then have ne: "FormatHost_Host h \<noteq> []" by (rule normalized_not_Nil)
  show ?thesis
  proof (cases "last (FormatHost_Host h) = CHR ''/''")
    case True
    with n have "FormatHost_Host (FormatHost_Host h) = butlast (FormatHost_Host h)"
      by (rule FormatHost_Host_slash)
    moreover from ne have "butlast (FormatHost_Host h) \<noteq> FormatHost_Host h"
      by (metis length_butlast diff_less length_greater_0_conv less_numeral_extra(1) nat_neq_iff)
    ultimately show ?thesis using True ne by (simp add: HasSuffix_slash)
  next
    case F: False
    with n have "FormatHost_Host (FormatHost_Host h) = FormatHost_Host h"
      by (rule FormatHost_Host_normalized)
    with F show ?thesis by (simp add: HasSuffix_slash)
  qed
qed

section \<open>Host normalisation\<close>

text \<open>
  C6: \<^verbatim>\<open>FormatHost\<close> maps "example.com" to "http://example.com:80", "example.com:443" to
  "https://example.com:443" and "https://example.com/" to "https://example.com:443".
\<close>

theorem FormatHost_examples:
  "Host (FormatHost (c\<lparr>Host := ''example.com''\<rparr>)) = ''http://example.com:80'' \<and>
   Host (FormatHost (c\<lparr>Host := ''example.com:443''\<rparr>)) = ''https://example.com:443'' \<and>
   Host (FormatHost (c\<lparr>Host := ''https://example.com/''\<rparr>)) = ''https://example.com:443''"
  by (simp add: FormatHost_def FormatHost_Host_def HasPrefix_def)

text \<open>
  C1 as stated, that \<^verbatim>\<open>FormatHost\<close> applied twice gives what it gives applied once, fails
  on "a:80//": only one trailing slash is removed, the port is found, and the result
  "http://a:80/" loses its slash in the second application.
\<close>

theorem FormatHost_not_idempotent:
  "Host (FormatHost (zero\<lparr>Host := ''a:80//''\<rparr>)) = ''http://a:80/'' \<and>
   Host (FormatHost (FormatHost (zero\<lparr>Host := ''a:80//''\<rparr>))) = ''http://a:80'' \<and>
   FormatHost (FormatHost (zero\<lparr>Host := ''a:80//''\<rparr>)) \<noteq> FormatHost (zero\<lparr>Host := ''a:80//''\<rparr>)"
  by (simp add: FormatHost_def FormatHost_Host_def HasPrefix_def zero_def)

text \<open>
  C1, amended: \<^verbatim>\<open>FormatHost\<close> applied twice gives what it gives applied once exactly when
  the host it gives does not end with a slash; this is so for every host that does not
  end with two slashes.
\<close>

theorem FormatHost_twice:
  "(FormatHost (FormatHost c) = FormatHost c \<longleftrightarrow> \<not> HasSuffix (Host (FormatHost c)) ''/'') \<and>
   (\<not> HasSuffix (Host c) ''//'' \<longrightarrow> FormatHost (FormatHost c) = FormatHost c)"
proof -
  have eq: "FormatHost (FormatHost c) = FormatHost c \<longleftrightarrow>
            FormatHost_Host (FormatHost_Host (Host c)) = FormatHost_Host (Host c)"
    by (cases c) (simp add: FormatHost_def)
  have "FormatHost_Host (FormatHost_Host (Host c)) = FormatHost_Host (Host c)"
    if "\<not> HasSuffix (Host c) ''//''"
  proof (cases "Host c = []")
    case True
    then show ?thesis by (simp add: FormatHost_Host_def)
  next
    case False
    then have "last (FormatHost_Host (Host c)) \<noteq> CHR ''/''"
      using that by (rule last_FormatHost_Host)
    then show ?thesis by (simp add: FormatHost_Host_twice HasSuffix_slash)
  qed
  then show ?thesis
    unfolding eq by (simp add: FormatHost_Host_twice FormatHost_def)
qed

theorem FormatHost_twice_witness:
  "\<not> HasSuffix (Host (zero\<lparr>Host := ''example.com/''\<rparr>)) ''//'' \<and>
   FormatHost (FormatHost (zero\<lparr>Host := ''example.com/''\<rparr>)) = FormatHost (zero\<lparr>Host := ''example.com/''\<rparr>) \<and>
   Host (FormatHost (zero\<lparr>Host := ''example.com/''\<rparr>)) = ''http://example.com:80''"
  using FormatHost_twice [of "zero\<lparr>Host := ''example.com/''\<rparr>"]
  by (simp add: HasSuffix_def FormatHost_def FormatHost_Host_def HasPrefix_def zero_def)

section \<open>Validity and merging\<close>













text \<open>
  C3 as stated, that after \<^verbatim>\<open>Fill\<close> the receiver's \<^verbatim>\<open>Host\<close> is the other's \<^verbatim>\<open>Host\<close> verbatim
  and not its normalised form, fails: \<^verbatim>\<open>Fill\<close> ends with \<^verbatim>\<open>c.IsValid()\<close>, which normalises
  the host it has just copied.
\<close>

theorem Fill_Host_not_verbatim:
  "Host (zero\<lparr>Host := ''example.com''\<rparr>) \<noteq> [] \<and>
   Host (zero\<lparr>Host := ''example.com''\<rparr>) \<noteq> Host zero \<and>
   Host (fst (Fill zero (zero\<lparr>Host := ''example.com''\<rparr>))) = ''http://example.com:80'' \<and>
   Host (fst (Fill zero (zero\<lparr>Host := ''example.com''\<rparr>))) \<noteq> Host (zero\<lparr>Host := ''example.com''\<rparr>)"
  by (simp add: Fill_def ClientConfiguration_IsValid_def FormatHost_def FormatHost_Host_def
      HasPrefix_def zero_def Let_def)

text \<open>
  C3, amended: for every receiver \<open>c\<close> and every \<open>other\<close> whose \<^verbatim>\<open>Host\<close> is not empty and
  differs from the receiver's, after \<^verbatim>\<open>c.Fill(other)\<close> the receiver's \<^verbatim>\<open>Host\<close> is the
  normalised form of the other's \<^verbatim>\<open>Host\<close>, what \<^verbatim>\<open>FormatHost\<close> makes of it.
\<close>

theorem Fill_Host:
  assumes "Host other \<noteq> []" and "Host other \<noteq> Host c"
  shows "Host (fst (Fill c other)) = Host (FormatHost other)"
  using assms
  by (simp add: Fill_def ClientConfiguration_IsValid_def FormatHost_def Let_def)

theorem Fill_Host_witness:
  "Host (zero\<lparr>Host := ''example.com:443''\<rparr>) \<noteq> [] \<and>
   Host (zero\<lparr>Host := ''example.com:443''\<rparr>) \<noteq> Host (zero\<lparr>Host := ''old''\<rparr>) \<and>
   Host (fst (Fill (zero\<lparr>Host := ''old''\<rparr>) (zero\<lparr>Host := ''example.com:443''\<rparr>))) =
     ''https://example.com:443''"
  using Fill_Host [of "zero\<lparr>Host := ''example.com:443''\<rparr>" "zero\<lparr>Host := ''old''\<rparr>"]
  by (simp add: FormatHost_def FormatHost_Host_def HasPrefix_def zero_def)

section \<open>GetCurrent and FillCurrent\<close>

lemma GetCurrent_returns: "\<exists>r. GetCurrent mem c = Inr r"
  by (auto simp: GetCurrent_def map_index_def map_assign_def new_def Let_def
      split: option.splits)

text \<open>
  C4 as stated, that \<^verbatim>\<open>GetCurrent\<close> returns a non-nil pointer on every configuration,
  fails where the map holds a nil pointer under the current context: the entry is found
  and returned as it is.
\<close>

theorem GetCurrent_nil_entry:
  "GetCurrent (\<lparr>cells = \<lambda>_. zero, brk = 0\<rparr> :: string memory)
     \<lparr>CurrentContext = ''a'', Contexts = Some [''a'' \<mapsto> None]\<rparr> =
   Inr (\<lparr>cells = \<lambda>_. zero, brk = 0\<rparr>, \<lparr>CurrentContext = ''a'', Contexts = Some [''a'' \<mapsto> None]\<rparr>, None)"
  by (simp add: GetCurrent_def map_index_def)

text \<open>
  C4, amended: \<^verbatim>\<open>GetCurrent\<close> never panics and returns the entry that the map then holds
  under \<^verbatim>\<open>CurrentContext\<close>; the pointer is non-nil on every configuration whose map does
  not hold a nil pointer under the current context. On the zero-valued configuration it
  leaves \<^verbatim>\<open>CurrentContext\<close> equal to "master" and the map with one entry under that key,
  a newly allocated zero-valued struct.
\<close>

theorem GetCurrent_non_nil:
  "(\<exists>mem' c' cfg. GetCurrent mem c = Inr (mem', c', cfg) \<and>
      map_index (Contexts c') (CurrentContext c') = Some cfg \<and>
      (map_index (Contexts c) (CurrentContext c) \<noteq> Some None \<longrightarrow> cfg \<noteq> None)) \<and>
   GetCurrent mem \<lparr>CurrentContext = [], Contexts = None\<rparr> =
     Inr (mem\<lparr>cells := (cells mem)(brk mem := zero), brk := Suc (brk mem)\<rparr>,
          \<lparr>CurrentContext = ''master'', Contexts = Some [''master'' \<mapsto> Some (brk mem)]\<rparr>,
          Some (brk mem))"
proof -
  have "GetCurrent mem \<lparr>CurrentContext = [], Contexts = None\<rparr> =
     Inr (mem\<lparr>cells := (cells mem)(brk mem := zero), brk := Suc (brk mem)\<rparr>,
          \<lparr>CurrentContext = ''master'', Contexts = Some [''master'' \<mapsto> Some (brk mem)]\<rparr>,
          Some (brk mem))"
    by (simp add: GetCurrent_def map_index_def map_assign_def new_def DefaultContextKey_def)
  moreover have "\<exists>mem' c' cfg. GetCurrent mem c = Inr (mem', c', cfg) \<and>
      map_index (Contexts c') (CurrentContext c') = Some cfg \<and>
      (map_index (Contexts c) (CurrentContext c) \<noteq> Some None \<longrightarrow> cfg \<noteq> None)"
  proof (cases "map_index (Contexts c) (CurrentContext c)")
    case None
    then show ?thesis
      by (cases "Contexts c")
        (auto simp: GetCurrent_def map_index_def map_assign_def new_def Let_def)
  next
    case (Some cfg)
    then show ?thesis
      by (cases "Contexts c") (auto simp: GetCurrent_def map_index_def)
  qed
  ultimately show ?thesis by blast
qed

theorem GetCurrent_non_nil_witness:
  "map_index (Contexts \<lparr>CurrentContext = ''a'', Contexts = Some [''a'' \<mapsto> Some 0]\<rparr>)
     (CurrentContext \<lparr>CurrentContext = ''a'', Contexts = Some [''a'' \<mapsto> Some 0]\<rparr>) \<noteq> Some None \<and>
   GetCurrent (\<lparr>cells = \<lambda>_. zero, brk = 1\<rparr> :: string memory)
     \<lparr>CurrentContext = ''a'', Contexts = Some [''a'' \<mapsto> Some 0]\<rparr> =
     Inr (\<lparr>cells = \<lambda>_. zero, brk = 1\<rparr>,
          \<lparr>CurrentContext = ''a'', Contexts = Some [''a'' \<mapsto> Some 0]\<rparr>, Some 0)"
  using GetCurrent_non_nil
    [of "\<lparr>cells = \<lambda>_. zero, brk = 1\<rparr> :: string memory"
        "\<lparr>CurrentContext = ''a'', Contexts = Some [''a'' \<mapsto> Some 0]\<rparr>", THEN conjunct1]
  by (simp add: GetCurrent_def map_index_def)

text \<open>
  C10: \<^verbatim>\<open>FillCurrent\<close> does not make a nil map, as \<^verbatim>\<open>GetCurrent\<close> does. On a
  configuration whose \<^verbatim>\<open>Contexts\<close> is nil, called with a valid argument, it reaches the
  assignment into the nil map and panics, where \<^verbatim>\<open>GetCurrent\<close> returns; so it returns for
  every argument only if \<^verbatim>\<open>Contexts\<close> is not nil.
\<close>

theorem FillCurrent_nil_Contexts:
  "(Contexts c = None \<and> snd (ClientConfiguration_IsValid cfg) \<longrightarrow>
      FillCurrent mem c cfg = Inl NilMapAssignment) \<and>
   (Contexts c = None \<longrightarrow> (\<exists>r. GetCurrent mem c = Inr r)) \<and>
   ((\<forall>cfg :: 'a ClientConfiguration. \<exists>r. FillCurrent mem c cfg = Inr r) \<longrightarrow> Contexts c \<noteq> None)"
proof -
  have a: "FillCurrent mem c cfg = Inl NilMapAssignment"
    if "Contexts c = None" "snd (ClientConfiguration_IsValid cfg)" for cfg :: "'a ClientConfiguration"
    using that
    by (cases "ClientConfiguration_IsValid cfg")
      (simp add: FillCurrent_def map_index_def map_assign_def new_def Let_def)
  let ?v = "zero\<lparr>Host := ''x'', Token := ''t''\<rparr> :: 'a ClientConfiguration"
  have v: "snd (ClientConfiguration_IsValid ?v)"
    by (simp add: ClientConfiguration_IsValid_def FormatHost_def zero_def Let_def
        FormatHost_Host_def)
  have "Contexts c \<noteq> None" if "\<forall>cfg :: 'a ClientConfiguration. \<exists>r. FillCurrent mem c cfg = Inr r"
  proof
    assume "Contexts c = None"
    then have "FillCurrent mem c ?v = Inl NilMapAssignment" using v by (rule a)
    with that show False by (metis Inl_Inr_False)
  qed
  with a GetCurrent_returns show ?thesis by blast
qed

theorem FillCurrent_nil_Contexts_witness:
  "Contexts \<lparr>CurrentContext = [], Contexts = None\<rparr> = None \<and>
   snd (ClientConfiguration_IsValid (zero\<lparr>Host := ''x:443'', Token := ''t''\<rparr> :: string ClientConfiguration)) \<and>
   FillCurrent (\<lparr>cells = \<lambda>_. zero, brk = 0\<rparr> :: string memory) \<lparr>CurrentContext = [], Contexts = None\<rparr>
     (zero\<lparr>Host := ''x:443'', Token := ''t''\<rparr>) = Inl NilMapAssignment \<and>
   GetCurrent (\<lparr>cells = \<lambda>_. zero, brk = 0\<rparr> :: string memory) \<lparr>CurrentContext = [], Contexts = None\<rparr> =
     Inr (\<lparr>cells = (\<lambda>_. zero)(0 := zero), brk = 1\<rparr>,
          \<lparr>CurrentContext = ''master'', Contexts = Some [''master'' \<mapsto> Some 0]\<rparr>, Some 0) \<and>
   FillCurrent (\<lparr>cells = \<lambda>_. zero, brk = 0\<rparr> :: string memory)
     \<lparr>CurrentContext = [], Contexts = Some Map.empty\<rparr>
     (zero\<lparr>Host := ''x:443'', Token := ''t''\<rparr>) =
     Inr (\<lparr>cells = (\<lambda>_. zero)(0 := zero\<lparr>Host := ''https://x:443'', Token := ''t''\<rparr>), brk = 1\<rparr>,
          \<lparr>CurrentContext = [], Contexts = Some [[] \<mapsto> Some 0]\<rparr>) \<and>
   Contexts \<lparr>CurrentContext = [], Contexts = Some Map.empty\<rparr> \<noteq> None"
proof -
  let ?mem = "\<lparr>cells = \<lambda>_. zero, brk = 0\<rparr> :: string memory"
  let ?nil = "\<lparr>CurrentContext = [], Contexts = None\<rparr>"
  let ?made = "\<lparr>CurrentContext = [], Contexts = Some Map.empty\<rparr>"
  let ?cfg = "zero\<lparr>Host := ''x:443'', Token := ''t''\<rparr> :: string ClientConfiguration"
  have v: "ClientConfiguration_IsValid ?cfg = (zero\<lparr>Host := ''https://x:443'', Token := ''t''\<rparr>, True)"
    by (simp add: ClientConfiguration_IsValid_def FormatHost_def FormatHost_Host_def
        HasPrefix_def zero_def Let_def)
  then have ok: "snd (ClientConfiguration_IsValid ?cfg)" by simp
  note inst = FillCurrent_nil_Contexts [of ?nil ?cfg ?mem]
  from inst ok have panic: "FillCurrent ?mem ?nil ?cfg = Inl NilMapAssignment" by simp
  have get: "GetCurrent ?mem ?nil =
     Inr (\<lparr>cells = (\<lambda>_. zero)(0 := zero), brk = 1\<rparr>,
          \<lparr>CurrentContext = ''master'', Contexts = Some [''master'' \<mapsto> Some 0]\<rparr>, Some 0)"
    by (simp add: GetCurrent_def map_index_def map_assign_def new_def DefaultContextKey_def)
  have fill: "FillCurrent ?mem ?made ?cfg =
     Inr (\<lparr>cells = (\<lambda>_. zero)(0 := zero\<lparr>Host := ''https://x:443'', Token := ''t''\<rparr>), brk = 1\<rparr>,
          \<lparr>CurrentContext = [], Contexts = Some [[] \<mapsto> Some 0]\<rparr>)"
    by (simp add: FillCurrent_def map_index_def map_assign_def new_def v)
  from ok panic get fill show ?thesis by simp
qed

section \<open>RemoveContext\<close>

lemma ranges_entry:
  assumes "ranges cm es" and "(k, p) \<in> set es"
  shows "map_index cm k = Some p"
proof -
  from assms(1) have "distinct (map fst es)" by (simp add: ranges_def)
  then have "map_of es k = Some p" using assms(2) by (rule map_of_is_SomeI)
  moreover from assms(1) have "map_index cm k = map_of es k"
    by (cases cm) (simp_all add: ranges_def map_index_def)
  ultimately show ?thesis by simp
qed

lemma ranges_key:
  assumes "ranges cm es" and "map_index cm k = Some p"
  shows "(k, p) \<in> set es"
proof -
  from assms(1) have "map_index cm k = map_of es k"
    by (cases cm) (simp_all add: ranges_def map_index_def)
  with assms(2) show ?thesis by (simp add: map_of_SomeD)
qed

lemma RemoveContext_range_skips:
  "\<forall>e \<in> set es. fst e = name \<Longrightarrow> RemoveContext_range es name mem c = Inr (mem, c, False)"
  by (induction es) auto





text \<open>
  C7: for every configuration and every name that is a key of \<^verbatim>\<open>Contexts\<close> and differs
  from \<^verbatim>\<open>CurrentContext\<close>, \<^verbatim>\<open>RemoveContext(name)\<close> returns true, removes the entry under
  that name and no other, and leaves \<^verbatim>\<open>CurrentContext\<close> (and the memory) as it was.
\<close>

theorem RemoveContext_not_current:
  assumes "Contexts c = Some m" and "m name = Some p" and "CurrentContext c \<noteq> name"
  shows "RemoveContext es mem c name = Inr (mem, c\<lparr>Contexts := Some (m(name := None))\<rparr>, True)"
  using assms by (simp add: RemoveContext_def map_index_def map_delete_def)

theorem RemoveContext_not_current_witness:
  "Contexts \<lparr>CurrentContext = ''a'', Contexts = Some [''a'' \<mapsto> Some 0, ''b'' \<mapsto> None]\<rparr> =
     Some [''a'' \<mapsto> Some 0, ''b'' \<mapsto> None] \<and>
   [''a'' \<mapsto> Some 0, ''b'' \<mapsto> None] ''b'' = Some None \<and>
   CurrentContext \<lparr>CurrentContext = ''a'', Contexts = Some [''a'' \<mapsto> Some 0, ''b'' \<mapsto> None]\<rparr> \<noteq> ''b'' \<and>
   RemoveContext [(''b'', None), (''a'', Some 0)]
     (\<lparr>cells = \<lambda>_. zero, brk = 1\<rparr> :: string memory)
     \<lparr>CurrentContext = ''a'', Contexts = Some [''a'' \<mapsto> Some 0, ''b'' \<mapsto> None]\<rparr> ''b'' =
     Inr (\<lparr>cells = \<lambda>_. zero, brk = 1\<rparr>,
          \<lparr>CurrentContext = ''a'', Contexts = Some [''a'' \<mapsto> Some 0]\<rparr>, True)"
  using RemoveContext_not_current
    [of "\<lparr>CurrentContext = ''a'', Contexts = Some [''a'' \<mapsto> Some 0, ''b'' \<mapsto> None]\<rparr>"
        "[''a'' \<mapsto> Some 0, ''b'' \<mapsto> None]" "''b''" None
        "[(''b'', None), (''a'', Some 0)]" "\<lparr>cells = \<lambda>_. zero, brk = 1\<rparr> :: string memory"]
  by simp

text \<open>
  C2 as stated, that \<^verbatim>\<open>RemoveContext\<close> on the only entry of the map returns false and
  leaves the map unchanged, fails when that entry is not the current context: it is
  removed like every other entry that is not current, and the map is left empty.
\<close>

theorem RemoveContext_sole_not_current:
  "dom [''a'' \<mapsto> Some (0::nat)] = {''a''} \<and>
   ranges (Some [''a'' \<mapsto> Some 0]) [(''a'', Some 0)] \<and>
   RemoveContext [(''a'', Some 0)] (\<lparr>cells = \<lambda>_. zero, brk = 1\<rparr> :: string memory)
     \<lparr>CurrentContext = ''b'', Contexts = Some [''a'' \<mapsto> Some 0]\<rparr> ''a'' =
     Inr (\<lparr>cells = \<lambda>_. zero, brk = 1\<rparr>, \<lparr>CurrentContext = ''b'', Contexts = Some Map.empty\<rparr>, True)"
  by (simp add: RemoveContext_def map_index_def map_delete_def ranges_def)

text \<open>
  C2, amended: for every configuration whose map has exactly one entry, and that entry
  is the current context, \<^verbatim>\<open>RemoveContext\<close> on its name returns false and leaves the
  configuration (and the memory) unchanged.
\<close>

theorem RemoveContext_sole_current:
  assumes "Contexts c = Some m" and "dom m = {name}" and "CurrentContext c = name"
    and "ranges (Contexts c) es"
  shows "RemoveContext es mem c name = Inr (mem, c, False)"
proof -
  from assms(1,4) have "map_of es = m" by (simp add: ranges_def)
  then have "dom m = fst ` set es" by (simp add: dom_map_of_conv_image_fst [symmetric])
  with assms(2) have "fst ` set es = {name}" by simp
  then have "\<forall>e \<in> set es. fst e = name" by auto
  then have "RemoveContext_range es name mem c = Inr (mem, c, False)"
    by (rule RemoveContext_range_skips)
  moreover from assms(2) obtain p where "m name = Some p" by auto
  ultimately show ?thesis using assms(1,3) by (simp add: RemoveContext_def map_index_def)
qed

theorem RemoveContext_sole_current_witness:
  "Contexts \<lparr>CurrentContext = ''a'', Contexts = Some [''a'' \<mapsto> Some 0]\<rparr> = Some [''a'' \<mapsto> Some 0] \<and>
   dom [''a'' \<mapsto> Some (0::nat)] = {''a''} \<and>
   CurrentContext \<lparr>CurrentContext = ''a'', Contexts = Some [''a'' \<mapsto> Some 0]\<rparr> = ''a'' \<and>
   ranges (Contexts \<lparr>CurrentContext = ''a'', Contexts = Some [''a'' \<mapsto> Some 0]\<rparr>) [(''a'', Some 0)] \<and>
   RemoveContext [(''a'', Some 0)] (\<lparr>cells = \<lambda>_. zero, brk = 1\<rparr> :: string memory)
     \<lparr>CurrentContext = ''a'', Contexts = Some [''a'' \<mapsto> Some 0]\<rparr> ''a'' =
     Inr (\<lparr>cells = \<lambda>_. zero, brk = 1\<rparr>,
          \<lparr>CurrentContext = ''a'', Contexts = Some [''a'' \<mapsto> Some 0]\<rparr>, False)"
  using RemoveContext_sole_current
    [of "\<lparr>CurrentContext = ''a'', Contexts = Some [''a'' \<mapsto> Some 0]\<rparr>" "[''a'' \<mapsto> Some 0]" "''a''"
        "[(''a'', Some 0)]" "\<lparr>cells = \<lambda>_. zero, brk = 1\<rparr> :: string memory"]
  by (simp add: ranges_def)




section \<open>What the callers of ClientConfiguration.IsValid do to the entries\<close>





section \<open>Clone\<close>

text \<open>
  What the loop of \<^verbatim>\<open>Clone\<close> leaves: the old cells untouched, one new cell for every entry.
\<close>

lemma Clone_range_result:
  assumes "Clone_range es mem cm = Inr (mem', cm')"
    and "\<forall>k a. (k, Some a) \<in> set es \<longrightarrow> a < brk mem"
    and "distinct (map fst es)"
  shows "brk mem \<le> brk mem' \<and>
         (\<forall>a. a < brk mem \<longrightarrow> cells mem' a = cells mem a) \<and>
         (\<forall>k. k \<notin> fst ` set es \<longrightarrow> cm' k = cm k) \<and>
         (\<forall>k p. (k, p) \<in> set es \<longrightarrow>
            (\<exists>a a'. p = Some a \<and> cm' k = Some (Some a') \<and> brk mem \<le> a' \<and>
                    cells mem' a' = cells mem a))"
  using assms
proof (induction es arbitrary: mem cm)
  case Nil
  then show ?case by simp
next
  case (Cons e es)
  obtain k p where e: "e = (k, p)" by (cases e)
  with Cons.prems(1) obtain a where p: "p = Some a" by (cases p) auto
  let ?mem = "mem\<lparr>cells := (cells mem)(brk mem := cells mem a), brk := Suc (brk mem)\<rparr>"
  let ?cm = "cm(k \<mapsto> Some (brk mem))"
  from Cons.prems(1) e p have loop: "Clone_range es ?mem ?cm = Inr (mem', cm')"
    by (simp add: new_def)
  from Cons.prems(2) have alloc: "\<forall>k a. (k, Some a) \<in> set es \<longrightarrow> a < brk ?mem"
    by (auto simp: less_Suc_eq)
  from Cons.prems(3) have dist: "distinct (map fst es)" and k: "k \<notin> fst ` set es"
    using e by simp_all
  from Cons.IH [OF loop alloc dist]
  have brk: "brk ?mem \<le> brk mem'"
    and old: "\<And>b. b < brk ?mem \<Longrightarrow> cells mem' b = cells ?mem b"
    and other: "\<And>j. j \<notin> fst ` set es \<Longrightarrow> cm' j = ?cm j"
    and entry: "\<And>j q. (j, q) \<in> set es \<Longrightarrow>
        \<exists>b b'. q = Some b \<and> cm' j = Some (Some b') \<and> brk ?mem \<le> b' \<and> cells mem' b' = cells ?mem b"
    by blast+
  from Cons.prems(2) e p have a: "a < brk mem" by simp
  have 1: "brk mem \<le> brk mem'" using brk by simp
  have 2: "cells mem' b = cells mem b" if "b < brk mem" for b
    using old [of b] that by simp
  have 3: "cm' j = cm j" if "j \<notin> fst ` set (e # es)" for j
    using other [of j] that e by simp
  have 4: "\<exists>b b'. q = Some b \<and> cm' j = Some (Some b') \<and> brk mem \<le> b' \<and> cells mem' b' = cells mem b"
    if "(j, q) \<in> set (e # es)" for j q
  proof (cases "(j, q) = e")
    case True
    with e p have j: "j = k" "q = Some a" by simp_all
    from other [OF k] have "cm' k = Some (Some (brk mem))" by simp
    moreover from old [of "brk mem"] have "cells mem' (brk mem) = cells mem a" by simp
    ultimately show ?thesis using j by auto
  next
    case False
    with that have in_es: "(j, q) \<in> set es" by simp
    from entry [OF this] obtain b b' where
      b: "q = Some b" "cm' j = Some (Some b')" "brk ?mem \<le> b'" "cells mem' b' = cells ?mem b"
      by blast
    from in_es b(1) Cons.prems(2) have "b < brk mem" by auto
    with b show ?thesis by auto
  qed
  from 1 2 3 4 show ?case by blast
qed

lemma Clone_range_returns:
  assumes "\<forall>e \<in> set es. snd e \<noteq> None"
  shows "\<exists>r. Clone_range es mem cm = Inr r"
  using assms
proof (induction es arbitrary: mem cm)
  case Nil
  then show ?case by auto
next
  case (Cons e es)
  obtain k p where e: "e = (k, p)" by (cases e)
  with Cons.prems obtain a where p: "p = Some a" by auto
  from Cons.prems have "\<forall>e \<in> set es. snd e \<noteq> None" by simp
  from Cons.IH [OF this] e p show ?case by (simp add: new_def)
qed

text \<open>
  C8: \<^verbatim>\<open>Clone\<close> makes a deep copy. For every configuration whose entries are structs in
  memory (their addresses are allocated ones, below \<open>brk\<close>) and every order \<open>es\<close> in which
  the loop visits the map: every entry of the original has an entry under the same name
  in the clone, a struct of its own with the same contents, and writing any value \<open>v\<close> (so
  any field) to an entry of the clone leaves every entry of the original as it was.
  \<^verbatim>\<open>Clone\<close> returns whenever no entry of the map is a nil pointer.
\<close>

theorem Clone_deep_copy:
  assumes "ranges (Contexts c) es"
    and "\<forall>k a. map_index (Contexts c) k = Some (Some a) \<longrightarrow> a < brk mem"
  shows "(\<forall>mem' clone. Clone es mem c = Inr (mem', clone) \<longrightarrow>
            CurrentContext clone = CurrentContext c \<and>
            (\<forall>k a. map_index (Contexts c) k = Some (Some a) \<longrightarrow>
               (\<exists>a'. map_index (Contexts clone) k = Some (Some a') \<and>
                     cells mem' a' = cells mem a)) \<and>
            (\<forall>k' a' v k a.
               map_index (Contexts clone) k' = Some (Some a') \<and>
               map_index (Contexts c) k = Some (Some a) \<longrightarrow>
               a' \<noteq> a \<and> cells (mem'\<lparr>cells := (cells mem')(a' := v)\<rparr>) a = cells mem a)) \<and>
         ((\<forall>k. map_index (Contexts c) k \<noteq> Some None) \<longrightarrow> (\<exists>r. Clone es mem c = Inr r))"
proof -
  from assms(1) have dist: "distinct (map fst es)" by (simp add: ranges_def)
  have alloc: "\<forall>k a. (k, Some a) \<in> set es \<longrightarrow> a < brk mem"
    using assms ranges_entry by blast
  have A: "CurrentContext clone = CurrentContext c \<and>
            (\<forall>k a. map_index (Contexts c) k = Some (Some a) \<longrightarrow>
               (\<exists>a'. map_index (Contexts clone) k = Some (Some a') \<and>
                     cells mem' a' = cells mem a)) \<and>
            (\<forall>k' a' v k a.
               map_index (Contexts clone) k' = Some (Some a') \<and>
               map_index (Contexts c) k = Some (Some a) \<longrightarrow>
               a' \<noteq> a \<and> cells (mem'\<lparr>cells := (cells mem')(a' := v)\<rparr>) a = cells mem a)"
    if C: "Clone es mem c = Inr (mem', clone)" for mem' clone
  proof -
    from C obtain cm where loop: "Clone_range es mem Map.empty = Inr (mem', cm)"
      and clone: "clone = \<lparr>CurrentContext = CurrentContext c, Contexts = Some cm\<rparr>"
      by (auto simp: Clone_def split: sum.splits)
    from Clone_range_result [OF loop alloc dist]
    have old: "\<And>a. a < brk mem \<Longrightarrow> cells mem' a = cells mem a"
      and other: "\<And>k. k \<notin> fst ` set es \<Longrightarrow> cm k = None"
      and entry: "\<And>k p. (k, p) \<in> set es \<Longrightarrow>
        \<exists>a a'. p = Some a \<and> cm k = Some (Some a') \<and> brk mem \<le> a' \<and> cells mem' a' = cells mem a"
      by auto
    have copy: "\<exists>a'. map_index (Contexts clone) k = Some (Some a') \<and> cells mem' a' = cells mem a"
      if "map_index (Contexts c) k = Some (Some a)" for k a
    proof -
      from assms(1) that have "(k, Some a) \<in> set es" by (rule ranges_key)
      from entry [OF this] clone show ?thesis by (auto simp: map_index_def)
    qed
    have fresh: "brk mem \<le> a'" if "map_index (Contexts clone) k' = Some (Some a')" for k' a'
    proof (cases "k' \<in> fst ` set es")
      case True
      then obtain p where "(k', p) \<in> set es" by auto
      from entry [OF this] that clone show ?thesis by (auto simp: map_index_def)
    next
      case False
      from other [OF this] that clone show ?thesis by (simp add: map_index_def)
    qed
    have frame: "a' \<noteq> a \<and> cells (mem'\<lparr>cells := (cells mem')(a' := v)\<rparr>) a = cells mem a"
      if "map_index (Contexts clone) k' = Some (Some a')" "map_index (Contexts c) k = Some (Some a)"
      for k' a' v k a
    proof -
      from that(1) have "brk mem \<le> a'" by (rule fresh)
      moreover from that(2) assms(2) have "a < brk mem" by blast
      ultimately show ?thesis using old [of a] by simp
    qed
    from clone have "CurrentContext clone = CurrentContext c" by simp
    with copy frame show ?thesis by blast
  qed
  have B: "\<exists>r. Clone es mem c = Inr r" if nn: "\<forall>k. map_index (Contexts c) k \<noteq> Some None"
  proof -
    have "\<forall>e \<in> set es. snd e \<noteq> None"
    proof
      fix e assume "e \<in> set es"
      then have "(fst e, snd e) \<in> set es" by simp
      with assms(1) have "map_index (Contexts c) (fst e) = Some (snd e)" by (rule ranges_entry)
      with nn show "snd e \<noteq> None" by metis
    qed
    then obtain r where "Clone_range es mem Map.empty = Inr r"
      using Clone_range_returns by blast
    then show ?thesis by (cases r) (auto simp: Clone_def)
  qed
  from A B show ?thesis by blast
qed

theorem Clone_deep_copy_witness:
  "ranges (Contexts \<lparr>CurrentContext = ''a'', Contexts = Some [''a'' \<mapsto> Some 0]\<rparr>) [(''a'', Some 0)] \<and>
   Clone [(''a'', Some 0)]
     (\<lparr>cells = (\<lambda>_. zero)(0 := zero\<lparr>Host := ''x''\<rparr>), brk = 1\<rparr> :: string memory)
     \<lparr>CurrentContext = ''a'', Contexts = Some [''a'' \<mapsto> Some 0]\<rparr> =
     Inr (\<lparr>cells = (\<lambda>_. zero)(0 := zero\<lparr>Host := ''x''\<rparr>, 1 := zero\<lparr>Host := ''x''\<rparr>), brk = 2\<rparr>,
          \<lparr>CurrentContext = ''a'', Contexts = Some [''a'' \<mapsto> Some 1]\<rparr>) \<and>
   cells (\<lparr>cells = (\<lambda>_. zero)(0 := zero\<lparr>Host := ''x''\<rparr>, 1 := zero\<lparr>Host := ''x''\<rparr>), brk = 2\<rparr>
            \<lparr>cells := (cells (\<lparr>cells = (\<lambda>_. zero)(0 := zero\<lparr>Host := ''x''\<rparr>, 1 := zero\<lparr>Host := ''x''\<rparr>),
                                 brk = 2\<rparr> :: string memory))
                       (1 := zero\<lparr>Host := ''y''\<rparr>)\<rparr>) 0 =
     zero\<lparr>Host := ''x''\<rparr>"
proof -
  let ?c = "\<lparr>CurrentContext = ''a'', Contexts = Some [''a'' \<mapsto> Some (0::nat)]\<rparr>"
  let ?es = "[(''a'', Some (0::nat))]"
  let ?mem = "\<lparr>cells = (\<lambda>_. zero)(0 := zero\<lparr>Host := ''x''\<rparr>), brk = 1\<rparr> :: string memory"
  let ?mem' = "\<lparr>cells = (\<lambda>_. zero)(0 := zero\<lparr>Host := ''x''\<rparr>, 1 := zero\<lparr>Host := ''x''\<rparr>),
                brk = 2\<rparr> :: string memory"
  let ?clone = "\<lparr>CurrentContext = ''a'', Contexts = Some [''a'' \<mapsto> Some (1::nat)]\<rparr>"
  have r: "ranges (Contexts ?c) ?es" by (simp add: ranges_def)
  have alloc: "\<forall>k a. map_index (Contexts ?c) k = Some (Some a) \<longrightarrow> a < brk ?mem"
    by (simp add: map_index_def)
  have C: "Clone ?es ?mem ?c = Inr (?mem', ?clone)"
    by (simp add: Clone_def new_def)
  have k': "map_index (Contexts ?clone) ''a'' = Some (Some 1)"
    and k: "map_index (Contexts ?c) ''a'' = Some (Some 0)"
    by (simp_all add: map_index_def)
  from Clone_deep_copy [OF r alloc] C k' k
  have "cells (?mem'\<lparr>cells := (cells ?mem')(1 := zero\<lparr>Host := ''y''\<rparr>)\<rparr>) 0 = cells ?mem 0"
    by blast
  then have "cells (?mem'\<lparr>cells := (cells ?mem')(1 := zero\<lparr>Host := ''y''\<rparr>)\<rparr>) 0 = zero\<lparr>Host := ''x''\<rparr>"
    by simp
  with r C show ?thesis by blast
qed

end
